theory Spec2Isabelle
  imports Main
begin

section \<open>Collaborators of RedisPipelineBootstrap and the calls made on them\<close>

text \<open>
  The bootstrap holds pointers to its collaborators (database manager, task queues,
  kafka consumers and producers, the embedded HTTP server, the wangle server, RocksDB and
  its column family handles). A heap object is identified by its address; a pointer that
  may be null (\<open>shared_ptr\<close> or raw) is an \<open>option\<close> of an address.

  Every member function of the header is embedded as a function that returns, besides
  its result, the calls it makes on collaborators, in program order.
\<close>

type_synonym ref = nat

text \<open>The starting offset the bootstrap passes to \<open>AbstractConsumer::init\<close>.\<close>

datatype topic_offset = OFFSET_STORED

datatype call =
    DatabaseManager_start ref
  | ScheduledTaskQueue_start ref
  | Consumer_init ref topic_offset
  | Consumer_start ref
  | EmbeddedHttpServer_start ref
  | EmbeddedHttpServer_destroy ref
  | Consumer_stop ref
  | Consumer_destroy ref
  | ScheduledTaskQueue_destroy ref
  | Producer_destroy ref
  | DatabaseManager_destroy ref
  | DB_DestroyColumnFamilyHandle ref "ref option"
  | DB_delete ref
  | Server_stop ref
  | Server_join ref
  | RedisHandler_connectionOpened ref

text \<open>
  \<open>CHECK\<close>, \<open>CHECK_GT\<close> and \<open>CHECK_NOTNULL\<close> abort the process with a message; a call
  through a null pointer has no defined behaviour and is kept apart; a consumer's
  \<open>init\<close> may panic when its verification fails.
\<close>

datatype error =
    CheckFailed string
  | NullDereference
  | VerificationPanic ref

section \<open>The members of RedisPipelineBootstrap\<close>

text \<open>
  An \<open>unordered_map\<close> is an association list in the container's iteration order, with
  \<open>find\<close> and \<open>count\<close> by key. The vector of consumers and the map of task queues hold
  pointers to constructed objects; the producer map and the column family map hold
  pointers the code itself tests or passes on unread, so they may be null. A field is
  named as the member is, without the member's trailing underscore.
\<close>

record bootstrap =
  rocksDb :: "ref option"
  columnFamilyMap :: "(string \<times> ref option) list"
  databaseManager :: "ref option"
  scheduledTaskQueueMap :: "(string \<times> ref) list"
  kafkaConsumers :: "ref list"
  kafkaProducers :: "(string \<times> ref option) list"
  embeddedHttpServer :: "ref option"
  server :: "ref option"

definition find_um :: "(string \<times> 'v) list \<Rightarrow> string \<Rightarrow> 'v option" where
  "find_um m k = map_of m k"

definition count_um :: "(string \<times> 'v) list \<Rightarrow> string \<Rightarrow> nat" where
  "count_um m k = (case find_um m k of None \<Rightarrow> 0 | Some v \<Rightarrow> 1)"

text \<open>
  \<open>operator[]\<close> of \<open>unordered_map\<close>: the mapped value when the key is present;
  otherwise a value-initialised entry (a null pointer) is inserted and returned.
\<close>

definition subscript_um ::
  "(string \<times> 'v option) list \<Rightarrow> string \<Rightarrow> 'v option \<times> (string \<times> 'v option) list" where
  "subscript_um m k =
     (case find_um m k of
        Some v \<Rightarrow> (v, m)
      | None \<Rightarrow> (None, m @ [(k, None)]))"

subsection \<open>Getters\<close>

definition getKafkaProducer :: "bootstrap \<Rightarrow> string \<Rightarrow> error + ref option" where
  "getKafkaProducer b name =
     (case find_um (kafkaProducers b) name of
        None \<Rightarrow> Inr None
      | Some p \<Rightarrow> Inr p)"

definition getColumnFamily :: "bootstrap \<Rightarrow> string \<Rightarrow> error + (ref option \<times> bootstrap)" where
  "getColumnFamily b name =
     (if count_um (columnFamilyMap b) name > 0
      then (let (h, m) = subscript_um (columnFamilyMap b) name
            in Inr (h, b\<lparr>columnFamilyMap := m\<rparr>))
      else Inl (CheckFailed (''Column family not found: '' @ name)))"

subsection \<open>The server\<close>

definition stopServer :: "bootstrap \<Rightarrow> call list \<times> bootstrap" where
  "stopServer b =
     (case server b of
        Some srv \<Rightarrow> ([Server_stop srv, Server_join srv], b\<lparr>server := None\<rparr>)
      | None \<Rightarrow> ([], b))"

text \<open>\<open>stopServer\<close> called \<open>n\<close> times in a row: the calls made in total and the final state.\<close>

fun stopServer_times :: "nat \<Rightarrow> bootstrap \<Rightarrow> call list \<times> bootstrap" where
  "stopServer_times 0 b = ([], b)"
| "stopServer_times (Suc n) b =
     (let (cs, b1) = stopServer b;
          (cs', b2) = stopServer_times n b1
      in (cs @ cs', b2))"

subsection \<open>Starting and stopping the optional components\<close>

text \<open>
  A range-based \<open>for\<close> loop over a container whose body only calls collaborators: the
  calls of the body for each element, in iteration order.
\<close>

fun forEach :: "('a \<Rightarrow> call list) \<Rightarrow> 'a list \<Rightarrow> call list" where
  "forEach body [] = []"
| "forEach body (x # xs) = body x @ forEach body xs"

text \<open>
  The first consumer loop of \<open>startOptionalComponents\<close>. \<open>AbstractConsumer::init\<close> is not
  part of the header; its comment says that initialisation may panic on a verification
  failure, so whether a consumer verifies is a parameter. A panic ends the process: the
  loop stops at that call.
\<close>

fun initConsumers :: "(ref \<Rightarrow> bool) \<Rightarrow> ref list \<Rightarrow> (error + unit) \<times> call list" where
  "initConsumers verifies [] = (Inr (), [])"
| "initConsumers verifies (c # cs) =
     (if verifies c
      then (let (r, calls) = initConsumers verifies cs
            in (r, Consumer_init c OFFSET_STORED # calls))
      else (Inl (VerificationPanic c), [Consumer_init c OFFSET_STORED]))"

definition startOptionalComponents ::
  "(ref \<Rightarrow> bool) \<Rightarrow> bootstrap \<Rightarrow> (error + unit) \<times> call list" where
  "startOptionalComponents verifies b =
     (let c1 = (case databaseManager b of Some d \<Rightarrow> [DatabaseManager_start d] | None \<Rightarrow> []);
          c2 = forEach (\<lambda>taskQueueEntry. [ScheduledTaskQueue_start (snd taskQueueEntry)])
                 (scheduledTaskQueueMap b);
          (r, c3) = initConsumers verifies (kafkaConsumers b)
      in case r of
           Inl e \<Rightarrow> (Inl e, c1 @ c2 @ c3)
         | Inr u \<Rightarrow>
             (let c4 = forEach (\<lambda>consumer. [Consumer_start consumer]) (kafkaConsumers b);
                  c5 = (case embeddedHttpServer b of
                          Some h \<Rightarrow> [EmbeddedHttpServer_start h] | None \<Rightarrow> [])
              in (Inr (), c1 @ c2 @ c3 @ c4 @ c5)))"

definition stopOptionalComponents :: "bootstrap \<Rightarrow> call list" where
  "stopOptionalComponents b =
     (let c1 = (case embeddedHttpServer b of
                  Some h \<Rightarrow> [EmbeddedHttpServer_destroy h] | None \<Rightarrow> []);
          c2 = forEach (\<lambda>consumer. [Consumer_stop consumer]) (kafkaConsumers b);
          c3 = forEach (\<lambda>consumer. [Consumer_destroy consumer]) (kafkaConsumers b);
          c4 = forEach (\<lambda>taskQueueEntry. [ScheduledTaskQueue_destroy (snd taskQueueEntry)])
                 (scheduledTaskQueueMap b);
          c5 = forEach (\<lambda>producerEntry.
                   case snd producerEntry of Some p \<Rightarrow> [Producer_destroy p] | None \<Rightarrow> [])
                 (kafkaProducers b);
          c6 = (case databaseManager b of Some d \<Rightarrow> [DatabaseManager_destroy d] | None \<Rightarrow> [])
      in c1 @ c2 @ c3 @ c4 @ c5 @ c6)"

text \<open>
  \<open>stopRocksDb\<close> calls \<open>DestroyColumnFamilyHandle\<close> through \<open>rocksDb_\<close>, which the
  constructor sets to null: with a null engine pointer the first iteration dereferences
  it, and \<open>delete\<close> of a null pointer does nothing.
\<close>

definition stopRocksDb :: "bootstrap \<Rightarrow> (error + unit) \<times> call list" where
  "stopRocksDb b =
     (case rocksDb b of
        Some db \<Rightarrow>
          (Inr (),
           forEach (\<lambda>entry. [DB_DestroyColumnFamilyHandle db (snd entry)]) (columnFamilyMap b)
           @ [DB_delete db])
      | None \<Rightarrow>
          (if columnFamilyMap b = [] then (Inr (), []) else (Inl NullDereference, [])))"

text \<open>
  Modelled from the spec: the shutdown sequence of the Service Assembler. The caller of
  \<open>stopServer\<close>, \<open>stopOptionalComponents\<close> and \<open>stopRocksDb\<close> is not part of the header;
  section 4.6 of the specification gives the order: stop listening, then the optional
  components, then close the storage engine.
\<close>

definition shutdown :: "bootstrap \<Rightarrow> (error + unit) \<times> call list \<times> bootstrap" where
  "shutdown b =
     (let (c1, b1) = stopServer b;
          c2 = stopOptionalComponents b1;
          (r, c3) = stopRocksDb b1
      in (r, c1 @ c2 @ c3, b1))"

section \<open>DefaultRedisHandlerBuilder\<close>

text \<open>
  The handler factory is a function pointer with effects of its own; here its
  \<open>k\<close>-th invocation (counting from 0) returns \<open>redisHandlerFactory k\<close>, a possibly null
  pointer, and the builder counts the invocations made through it. The factory's
  argument \<open>bootstrap_\<close> never changes and is left out.
\<close>

record builder =
  redisHandlerFactory :: "nat \<Rightarrow> ref option"
  singletonHandler :: bool
  handler :: "ref option"
  invocations :: nat

definition invokeFactory :: "builder \<Rightarrow> ref option \<times> builder" where
  "invokeFactory bd =
     (redisHandlerFactory bd (invocations bd), bd\<lparr>invocations := Suc (invocations bd)\<rparr>)"

definition DefaultRedisHandlerBuilder :: "(nat \<Rightarrow> ref option) \<Rightarrow> bool \<Rightarrow> error + builder" where
  "DefaultRedisHandlerBuilder factory singleton =
     (let bd = \<lparr>redisHandlerFactory = factory, singletonHandler = singleton,
                handler = None, invocations = 0\<rparr>
      in if singleton
         then (let (h, bd1) = invokeFactory bd;
                   bd2 = bd1\<lparr>handler := h\<rparr>
               in if handler bd2 = None
                  then Inl (CheckFailed ''handler_.get()'')
                  else Inr bd2)
         else Inr bd)"

text \<open>
  \<open>newHandler\<close>: the pointer returned is \<open>handler\<close>, a local; the notification is sent
  through the member \<open>handler_\<close>.
\<close>

definition newHandler :: "builder \<Rightarrow> error + (ref option \<times> call list \<times> builder)" where
  "newHandler bd =
     (let (h, bd1) = (if singletonHandler bd then (handler bd, bd) else invokeFactory bd)
      in case handler bd1 of
           None \<Rightarrow> Inl NullDereference
         | Some p \<Rightarrow> Inr (h, [RedisHandler_connectionOpened p], bd1))"

text \<open>
  \<open>newHandler\<close> called for \<open>n\<close> connections in a row: the pointers returned, the calls
  made and the final builder; the first failing call ends the run.
\<close>

fun newHandler_times :: "nat \<Rightarrow> builder \<Rightarrow> error + (ref option list \<times> call list \<times> builder)" where
  "newHandler_times 0 bd = Inr ([], [], bd)"
| "newHandler_times (Suc n) bd =
     (case newHandler bd of
        Inl e \<Rightarrow> Inl e
      | Inr (h, cs, bd1) \<Rightarrow>
          (case newHandler_times n bd1 of
             Inl e \<Rightarrow> Inl e
           | Inr (hs, cs', bd2) \<Rightarrow> Inr (h # hs, cs @ cs', bd2)))"

section \<open>Column family groups\<close>

text \<open>
  \<open>folly::sformat("{}-{}", groupName, index)\<close> with an \<open>int\<close> index: the group name, a
  dash, and the index in decimal, with a leading minus sign when negative.
\<close>

definition digit_char :: "nat \<Rightarrow> char" where
  "digit_char d = ''0123456789'' ! d"

fun to_digits :: "nat \<Rightarrow> string" where
  "to_digits n = (if n < 10 then [digit_char n] else to_digits (n div 10) @ [digit_char (n mod 10)])"

definition format_int :: "int \<Rightarrow> string" where
  "format_int i = (if i < 0 then CHR ''-'' # to_digits (nat (- i)) else to_digits (nat i))"

definition getColumnFamilyNameInGroup :: "string \<Rightarrow> int \<Rightarrow> string" where
  "getColumnFamilyNameInGroup groupName index = groupName @ ''-'' @ format_int index"

record RocksDbColumnFamilyGroupConfig =
  startShardIndex :: int
  localVirtualShardCount :: int
  shardIndexIncrement :: int

text \<open>
  Modelled from the spec: \<open>processRocksDbColumnFamilyGroup\<close> is declared in the header and
  its body is missing. Sections 4.1 and 8 of the specification: the callback is invoked once
  per index, in ascending order, with the name of that column family; a group of
  \<open>localVirtualShardCount = n\<close> has \<open>n\<close> names, and the group
  \<open>(start = 0, count = 3, increment = 2)\<close> has the names of the indices 0, 1 and 2. The
  callback acts on a state of the caller.
\<close>

definition processRocksDbColumnFamilyGroup ::
  "string \<Rightarrow> RocksDbColumnFamilyGroupConfig \<Rightarrow> (string \<Rightarrow> 's \<Rightarrow> 's) \<Rightarrow> 's \<Rightarrow> 's" where
  "processRocksDbColumnFamilyGroup groupName groupConfig callback =
     fold (\<lambda>i. callback (getColumnFamilyNameInGroup groupName (int i)))
       [0 ..< nat (localVirtualShardCount groupConfig)]"

text \<open>Resolving a group: the names the callback is given, in the order of the calls.\<close>

definition columnFamilyNamesInGroup :: "string \<Rightarrow> RocksDbColumnFamilyGroupConfig \<Rightarrow> string list" where
  "columnFamilyNamesInGroup groupName groupConfig =
     processRocksDbColumnFamilyGroup groupName groupConfig (\<lambda>name names. names @ [name]) []"

section \<open>The gate of the one-off flags\<close>

definition kMaxVersionTimestampAgeMs :: int where
  "kMaxVersionTimestampAgeMs = 30 * 60 * 1000"

text \<open>
  Modelled from the spec: \<open>canApplyOneOffFlags\<close> is declared in the header and its body is
  missing. Section 4.3 of the specification: read the persisted version timestamp; the
  one-off flags may be applied only if the persisted timestamp has not advanced to or past
  the target, and the distance between now and the target does not exceed the staleness
  bound \<open>kMaxVersionTimestampAgeMs\<close>. The persisted timestamp and the clock are read from
  the database and the system; here they are arguments. Timestamps are milliseconds since
  the epoch, far from the bounds of \<open>int64_t\<close>, and are integers here.
\<close>

definition canApplyOneOffFlags :: "int \<Rightarrow> int \<Rightarrow> int \<Rightarrow> bool" where
  "canApplyOneOffFlags persistedMs nowMs versionTimestampMs =
     (if versionTimestampMs \<le> persistedMs then False
      else if \<bar>nowMs - versionTimestampMs\<bar> > kMaxVersionTimestampAgeMs then False
      else True)"

section \<open>Auxiliary definitions for the statements\<close>

text \<open>A configured bootstrap with every optional component, used to instantiate the theorems.\<close>

definition exampleBootstrap :: bootstrap where
  "exampleBootstrap =
     \<lparr>rocksDb = Some 1,
      columnFamilyMap = [(''default'', Some 10), (''alpha-0'', Some 11)],
      databaseManager = Some 2,
      scheduledTaskQueueMap = [(''alpha'', 20)],
      kafkaConsumers = [30, 31],
      kafkaProducers = [(''events'', Some 40), (''audit'', None)],
      embeddedHttpServer = Some 3,
      server = Some 4\<rparr>"

text \<open>The calls that start a consumer's loop, and the calls that verify a consumer.\<close>

definition is_start :: "call \<Rightarrow> bool" where
  "is_start x = (case x of Consumer_start c \<Rightarrow> True | _ \<Rightarrow> False)"

definition is_init :: "call \<Rightarrow> bool" where
  "is_init x = (case x of Consumer_init c off \<Rightarrow> True | _ \<Rightarrow> False)"

text \<open>The calls made on the storage engine itself.\<close>

definition is_engine_call :: "call \<Rightarrow> bool" where
  "is_engine_call x =
     (case x of DB_DestroyColumnFamilyHandle db h \<Rightarrow> True | DB_delete db \<Rightarrow> True | _ \<Rightarrow> False)"

section \<open>Getters and the server\<close>

lemma stopServer_stopped: "server (snd (stopServer b)) = None"
  by (simp add: stopServer_def split: option.splits)

lemma stopServer_noop: "server b = None \<Longrightarrow> stopServer b = ([], b)"
  by (simp add: stopServer_def)

lemma stopServer_times_noop: "server b = None \<Longrightarrow> stopServer_times n b = ([], b)"
  by (induction n) (simp_all add: stopServer_noop)

text \<open>
  C10: \<open>stopServer\<close> is idempotent. After a call the server pointer is null; a second call
  makes no call and leaves the state as it is; any number of calls in a row makes the calls of
  the first one only, so no server is stopped or joined twice. When a server exists, the first
  call stops it, joins it and sets the pointer to null.
\<close>

theorem stopServer_idempotent:
  "server (snd (stopServer b)) = None
   \<and> stopServer (snd (stopServer b)) = ([], snd (stopServer b))
   \<and> stopServer_times (Suc n) b = stopServer b
   \<and> (\<forall>srv. server b = Some srv \<longrightarrow>
          stopServer b = ([Server_stop srv, Server_join srv], b\<lparr>server := None\<rparr>))
   \<and> (server b = None \<longrightarrow> stopServer b = ([], b))"
proof -
  have stopped: "server (snd (stopServer b)) = None" by (rule stopServer_stopped)
  have again: "stopServer (snd (stopServer b)) = ([], snd (stopServer b))"
    using stopped by (rule stopServer_noop)
  have rest: "stopServer_times n (snd (stopServer b)) = ([], snd (stopServer b))"
    using stopped by (rule stopServer_times_noop)
  have many: "stopServer_times (Suc n) b = stopServer b"
    using rest by (cases "stopServer b") simp
  have first: "\<forall>srv. server b = Some srv \<longrightarrow>
          stopServer b = ([Server_stop srv, Server_join srv], b\<lparr>server := None\<rparr>)"
    by (simp add: stopServer_def)
  show ?thesis using stopped again many first by (simp add: stopServer_noop)
qed

theorem stopServer_idempotent_witness:
  "server exampleBootstrap = Some 4 \<and> stopServer exampleBootstrap = ([Server_stop 4, Server_join 4], exampleBootstrap\<lparr>server := None\<rparr>)
   \<and> stopServer_times (Suc 2) exampleBootstrap = ([Server_stop 4, Server_join 4], exampleBootstrap\<lparr>server := None\<rparr>)"
proof -
  have srv: "server exampleBootstrap = Some 4" by (simp add: exampleBootstrap_def)
  note idem = stopServer_idempotent [of exampleBootstrap 2]
  from idem srv have one: "stopServer exampleBootstrap = ([Server_stop 4, Server_join 4], exampleBootstrap\<lparr>server := None\<rparr>)"
    by blast
  from idem have "stopServer_times (Suc 2) exampleBootstrap = stopServer exampleBootstrap" by blast
  with one srv show ?thesis by simp
qed

lemma find_um_absent: "name \<notin> fst ` set m \<Longrightarrow> find_um m name = None"
  by (simp add: find_um_def map_of_eq_None_iff)

lemma find_um_present: "distinct (map fst m) \<Longrightarrow> (name, v) \<in> set m \<Longrightarrow> find_um m name = Some v"
  by (simp add: find_um_def)

text \<open>
  C6: \<open>getKafkaProducer\<close> never aborts. For a name that is not a key of the producer map the
  result is the null pointer; for a name that is a key (keys are unique) it is the producer
  stored under that name, the same one at every call, since the lookup changes nothing.
\<close>

theorem getKafkaProducer_absent_or_same:
  "(\<exists>r. getKafkaProducer b name = Inr r)
   \<and> (name \<notin> fst ` set (kafkaProducers b) \<longrightarrow> getKafkaProducer b name = Inr None)
   \<and> (\<forall>p. distinct (map fst (kafkaProducers b)) \<and> (name, p) \<in> set (kafkaProducers b) \<longrightarrow>
          getKafkaProducer b name = Inr p)"
proof (intro conjI allI impI)
  show "\<exists>r. getKafkaProducer b name = Inr r"
    by (simp add: getKafkaProducer_def split: option.splits)
next
  assume "name \<notin> fst ` set (kafkaProducers b)"
  then show "getKafkaProducer b name = Inr None"
    by (simp add: getKafkaProducer_def find_um_absent)
next
  fix p
  assume "distinct (map fst (kafkaProducers b)) \<and> (name, p) \<in> set (kafkaProducers b)"
  then have "find_um (kafkaProducers b) name = Some p"
    by (simp add: find_um_present)
  then show "getKafkaProducer b name = Inr p"
    by (simp add: getKafkaProducer_def)
qed

theorem getKafkaProducer_absent_or_same_witness:
  "''audit-2'' \<notin> fst ` set (kafkaProducers exampleBootstrap) \<and> getKafkaProducer exampleBootstrap ''audit-2'' = Inr None
   \<and> distinct (map fst (kafkaProducers exampleBootstrap)) \<and> (''events'', Some 40) \<in> set (kafkaProducers exampleBootstrap)
   \<and> getKafkaProducer exampleBootstrap ''events'' = Inr (Some 40)"
proof -
  have a: "''audit-2'' \<notin> fst ` set (kafkaProducers exampleBootstrap)" by (simp add: exampleBootstrap_def)
  have d: "distinct (map fst (kafkaProducers exampleBootstrap)) \<and> (''events'', Some 40) \<in> set (kafkaProducers exampleBootstrap)"
    by (simp add: exampleBootstrap_def)
  from getKafkaProducer_absent_or_same [of exampleBootstrap "''audit-2''"] a
  have r1: "getKafkaProducer exampleBootstrap ''audit-2'' = Inr None" by blast
  from getKafkaProducer_absent_or_same [of exampleBootstrap "''events''"] d
  have r2: "getKafkaProducer exampleBootstrap ''events'' = Inr (Some 40)" by blast
  from a d r1 r2 show ?thesis by blast
qed

text \<open>
  C7: \<open>getColumnFamily\<close> returns the stored handle for a name of the column family map and
  leaves the bootstrap, and so the set of configured names, unchanged; for any other name the
  check fails and no handle is returned.
\<close>

theorem getColumnFamily_contract:
  "(\<forall>h. find_um (columnFamilyMap b) name = Some h \<longrightarrow> getColumnFamily b name = Inr (h, b))
   \<and> (name \<notin> fst ` set (columnFamilyMap b) \<longrightarrow>
        getColumnFamily b name = Inl (CheckFailed (''Column family not found: '' @ name)))
   \<and> (\<forall>h b'. getColumnFamily b name = Inr (h, b') \<longrightarrow>
        name \<in> fst ` set (columnFamilyMap b) \<and> b' = b)"
  by (auto simp: getColumnFamily_def count_um_def subscript_um_def find_um_def map_of_eq_None_iff
      split: option.splits if_splits dest: map_of_SomeD intro: rev_image_eqI)


theorem getColumnFamily_contract_witness:
  "find_um (columnFamilyMap exampleBootstrap) ''alpha-0'' = Some (Some 11)
   \<and> getColumnFamily exampleBootstrap ''alpha-0'' = Inr (Some 11, exampleBootstrap)
   \<and> ''beta-0'' \<notin> fst ` set (columnFamilyMap exampleBootstrap)
   \<and> getColumnFamily exampleBootstrap ''beta-0'' = Inl (CheckFailed ''Column family not found: beta-0'')"
proof -
  have f: "find_um (columnFamilyMap exampleBootstrap) ''alpha-0'' = Some (Some 11)"
    by (simp add: exampleBootstrap_def find_um_def)
  have a: "''beta-0'' \<notin> fst ` set (columnFamilyMap exampleBootstrap)" by (simp add: exampleBootstrap_def)
  from getColumnFamily_contract [of exampleBootstrap "''alpha-0''"] f
  have r1: "getColumnFamily exampleBootstrap ''alpha-0'' = Inr (Some 11, exampleBootstrap)" by blast
  from getColumnFamily_contract [of exampleBootstrap "''beta-0''"] a
  have r2: "getColumnFamily exampleBootstrap ''beta-0'' = Inl (CheckFailed (''Column family not found: '' @ ''beta-0''))"
    by blast
  from f a r1 r2 show ?thesis by simp
qed

section \<open>Startup order\<close>

lemma forEach_single: "forEach (\<lambda>x. [f x]) xs = map f xs"
  by (induction xs) simp_all

lemma initConsumers_verified:
  "\<forall>c\<in>set cs. verifies c \<Longrightarrow>
   initConsumers verifies cs = (Inr (), map (\<lambda>c. Consumer_init c OFFSET_STORED) cs)"
  by (induction cs) simp_all

lemma initConsumers_panic:
  "\<not> (\<forall>c\<in>set cs. verifies c) \<Longrightarrow>
   \<exists>c\<in>set cs. \<not> verifies c \<and> fst (initConsumers verifies cs) = Inl (VerificationPanic c)"
proof (induction cs)
  case Nil
  then show ?case by simp
next
  case (Cons a cs)
  show ?case
  proof (cases "verifies a")
    case True
    with Cons.prems have "\<not> (\<forall>c\<in>set cs. verifies c)" by simp
    from Cons.IH [OF this] True show ?thesis by (auto split: prod.splits)
  next
    case False
    then show ?thesis by simp
  qed
qed

lemma initConsumers_calls:
  "x \<in> set (snd (initConsumers verifies cs)) \<Longrightarrow> \<exists>c\<in>set cs. x = Consumer_init c OFFSET_STORED"
  by (induction cs) (auto split: prod.splits if_splits)

text \<open>In a list cut in two, an element of the second part never comes before one of the first.\<close>

lemma split_order:
  assumes "xs = pre @ post" and "\<forall>x\<in>set pre. \<not> P x" and "\<forall>x\<in>set post. \<not> Q x"
    and "i < length xs" and "j < length xs" and "P (xs ! i)" and "Q (xs ! j)"
  shows "j < i"
proof -
  have i: "length pre \<le> i"
  proof (rule ccontr)
    assume "\<not> length pre \<le> i"
    then have "xs ! i \<in> set pre" using assms(1) by (simp add: nth_append)
    with assms(2,6) show False by blast
  qed
  have j: "j < length pre"
  proof (rule ccontr)
    assume n: "\<not> j < length pre"
    then have "xs ! j = post ! (j - length pre)" using assms(1) by (simp add: nth_append)
    moreover have "j - length pre < length post" using n assms(1,5) by simp
    ultimately have "xs ! j \<in> set post" by simp
    with assms(3,7) show False by blast
  qed
  from i j show ?thesis by simp
qed

lemma startOptionalComponents_verified:
  assumes "\<forall>c\<in>set (kafkaConsumers b). verifies c"
  shows "startOptionalComponents verifies b =
     (Inr (),
      (case databaseManager b of Some d \<Rightarrow> [DatabaseManager_start d] | None \<Rightarrow> [])
      @ map (\<lambda>e. ScheduledTaskQueue_start (snd e)) (scheduledTaskQueueMap b)
      @ map (\<lambda>c. Consumer_init c OFFSET_STORED) (kafkaConsumers b)
      @ map Consumer_start (kafkaConsumers b)
      @ (case embeddedHttpServer b of Some h \<Rightarrow> [EmbeddedHttpServer_start h] | None \<Rightarrow> []))"
  by (simp add: startOptionalComponents_def initConsumers_verified [OF assms] forEach_single)

lemma startOptionalComponents_panic:
  assumes "\<not> (\<forall>c\<in>set (kafkaConsumers b). verifies c)"
  shows "\<exists>c\<in>set (kafkaConsumers b). \<not> verifies c
           \<and> fst (startOptionalComponents verifies b) = Inl (VerificationPanic c)"
    and "\<forall>x\<in>set (snd (startOptionalComponents verifies b)). \<not> is_start x"
proof -
  obtain r c3 where ic: "initConsumers verifies (kafkaConsumers b) = (r, c3)"
    by (cases "initConsumers verifies (kafkaConsumers b)")
  from initConsumers_panic [OF assms] ic obtain c
    where c: "c \<in> set (kafkaConsumers b)" "\<not> verifies c" "r = Inl (VerificationPanic c)"
    by auto
  from c ic show "\<exists>c\<in>set (kafkaConsumers b). \<not> verifies c
           \<and> fst (startOptionalComponents verifies b) = Inl (VerificationPanic c)"
    by (auto simp: startOptionalComponents_def)
  have c3: "\<forall>x\<in>set c3. \<not> is_start x"
  proof
    fix x assume "x \<in> set c3"
    then have "x \<in> set (snd (initConsumers verifies (kafkaConsumers b)))" using ic by simp
    from initConsumers_calls [OF this] show "\<not> is_start x" by (auto simp: is_start_def)
  qed
  from c ic c3 show "\<forall>x\<in>set (snd (startOptionalComponents verifies b)). \<not> is_start x"
    by (auto simp: startOptionalComponents_def forEach_single is_start_def split: option.splits)
qed

lemma startOptionalComponents_split:
  "\<exists>pre post. snd (startOptionalComponents verifies b) = pre @ post
      \<and> (\<forall>x\<in>set pre. \<not> is_start x) \<and> (\<forall>x\<in>set post. \<not> is_init x)"
proof (cases "\<forall>c\<in>set (kafkaConsumers b). verifies c")
  case True
  let ?pre = "(case databaseManager b of Some d \<Rightarrow> [DatabaseManager_start d] | None \<Rightarrow> [])
      @ map (\<lambda>e. ScheduledTaskQueue_start (snd e)) (scheduledTaskQueueMap b)
      @ map (\<lambda>c. Consumer_init c OFFSET_STORED) (kafkaConsumers b)"
  let ?post = "map Consumer_start (kafkaConsumers b)
      @ (case embeddedHttpServer b of Some h \<Rightarrow> [EmbeddedHttpServer_start h] | None \<Rightarrow> [])"
  have "snd (startOptionalComponents verifies b) = ?pre @ ?post"
    by (simp add: startOptionalComponents_verified [OF True])
  moreover have "\<forall>x\<in>set ?pre. \<not> is_start x"
    by (auto simp: is_start_def split: option.splits)
  moreover have "\<forall>x\<in>set ?post. \<not> is_init x"
    by (auto simp: is_init_def split: option.splits)
  ultimately show ?thesis by blast
next
  case False
  have "snd (startOptionalComponents verifies b) = snd (startOptionalComponents verifies b) @ []"
    by simp
  moreover note startOptionalComponents_panic(2) [OF False]
  moreover have "\<forall>x\<in>set []. \<not> is_init x" by simp
  ultimately show ?thesis by blast
qed

text \<open>
  C2: in the calls of \<open>startOptionalComponents\<close>, the \<open>init\<close> call of every consumer comes
  before the \<open>start\<close> call of any consumer. When every consumer verifies, all consumers are
  initialised, then all are started; when one does not, the process panics at that \<open>init\<close>
  and no consumer has been started.
\<close>

theorem startOptionalComponents_init_before_start:
  "(\<forall>i j c c' off.
       i < length (snd (startOptionalComponents verifies b))
     \<and> j < length (snd (startOptionalComponents verifies b))
     \<and> snd (startOptionalComponents verifies b) ! i = Consumer_start c
     \<and> snd (startOptionalComponents verifies b) ! j = Consumer_init c' off \<longrightarrow> j < i)
   \<and> ((\<forall>c\<in>set (kafkaConsumers b). verifies c) \<longrightarrow>
        startOptionalComponents verifies b =
          (Inr (),
           (case databaseManager b of Some d \<Rightarrow> [DatabaseManager_start d] | None \<Rightarrow> [])
           @ map (\<lambda>e. ScheduledTaskQueue_start (snd e)) (scheduledTaskQueueMap b)
           @ map (\<lambda>c. Consumer_init c OFFSET_STORED) (kafkaConsumers b)
           @ map Consumer_start (kafkaConsumers b)
           @ (case embeddedHttpServer b of Some h \<Rightarrow> [EmbeddedHttpServer_start h] | None \<Rightarrow> [])))
   \<and> (\<not> (\<forall>c\<in>set (kafkaConsumers b). verifies c) \<longrightarrow>
        (\<exists>c\<in>set (kafkaConsumers b). \<not> verifies c
            \<and> fst (startOptionalComponents verifies b) = Inl (VerificationPanic c))
        \<and> (\<forall>c. Consumer_start c \<notin> set (snd (startOptionalComponents verifies b))))"
proof (intro conjI allI impI)
  fix i j c c' off
  let ?cs = "snd (startOptionalComponents verifies b)"
  assume a: "i < length ?cs \<and> j < length ?cs \<and> ?cs ! i = Consumer_start c
     \<and> ?cs ! j = Consumer_init c' off"
  obtain pre post where s: "?cs = pre @ post" "\<forall>x\<in>set pre. \<not> is_start x"
    "\<forall>x\<in>set post. \<not> is_init x"
    using startOptionalComponents_split by blast
  from a have "is_start (?cs ! i)" "is_init (?cs ! j)" by (simp_all add: is_start_def is_init_def)
  with s a show "j < i" using split_order [of ?cs pre post is_start is_init i j] by blast
next
  assume "\<forall>c\<in>set (kafkaConsumers b). verifies c"
  then show "startOptionalComponents verifies b =
          (Inr (),
           (case databaseManager b of Some d \<Rightarrow> [DatabaseManager_start d] | None \<Rightarrow> [])
           @ map (\<lambda>e. ScheduledTaskQueue_start (snd e)) (scheduledTaskQueueMap b)
           @ map (\<lambda>c. Consumer_init c OFFSET_STORED) (kafkaConsumers b)
           @ map Consumer_start (kafkaConsumers b)
           @ (case embeddedHttpServer b of Some h \<Rightarrow> [EmbeddedHttpServer_start h] | None \<Rightarrow> []))"
    by (rule startOptionalComponents_verified)
next
  assume n: "\<not> (\<forall>c\<in>set (kafkaConsumers b). verifies c)"
  then show "\<exists>c\<in>set (kafkaConsumers b). \<not> verifies c
            \<and> fst (startOptionalComponents verifies b) = Inl (VerificationPanic c)"
    by (rule startOptionalComponents_panic(1))
next
  fix c
  assume n: "\<not> (\<forall>c\<in>set (kafkaConsumers b). verifies c)"
  from startOptionalComponents_panic(2) [OF n]
  show "Consumer_start c \<notin> set (snd (startOptionalComponents verifies b))"
    by (auto simp: is_start_def)
qed

theorem startOptionalComponents_init_before_start_witness:
  "kafkaConsumers exampleBootstrap = [30, 31]
   \<and> startOptionalComponents (\<lambda>c. True) exampleBootstrap =
       (Inr (), [DatabaseManager_start 2, ScheduledTaskQueue_start 20,
                 Consumer_init 30 OFFSET_STORED, Consumer_init 31 OFFSET_STORED,
                 Consumer_start 30, Consumer_start 31, EmbeddedHttpServer_start 3])
   \<and> fst (startOptionalComponents (\<lambda>c. c \<noteq> 31) exampleBootstrap) = Inl (VerificationPanic 31)
   \<and> Consumer_start 30 \<notin> set (snd (startOptionalComponents (\<lambda>c. c \<noteq> 31) exampleBootstrap))"
proof -
  have cs: "kafkaConsumers exampleBootstrap = [30, 31]" by (simp add: exampleBootstrap_def)
  have ok: "\<forall>c\<in>set (kafkaConsumers exampleBootstrap). (\<lambda>c. True) c" by simp
  have bad: "\<not> (\<forall>c\<in>set (kafkaConsumers exampleBootstrap). (\<lambda>c. c \<noteq> 31) c)"
    by (simp add: cs)
  from startOptionalComponents_init_before_start [of "\<lambda>c. True" exampleBootstrap] ok
  have r1: "startOptionalComponents (\<lambda>c. True) exampleBootstrap =
       (Inr (), [DatabaseManager_start 2, ScheduledTaskQueue_start 20,
                 Consumer_init 30 OFFSET_STORED, Consumer_init 31 OFFSET_STORED,
                 Consumer_start 30, Consumer_start 31, EmbeddedHttpServer_start 3])"
    by (simp add: exampleBootstrap_def)
  note panic = startOptionalComponents_init_before_start [of "\<lambda>c. c \<noteq> 31" exampleBootstrap]
  from panic bad
  have r2: "Consumer_start 30 \<notin> set (snd (startOptionalComponents (\<lambda>c. c \<noteq> 31) exampleBootstrap))"
    by blast
  from panic bad
  have "\<exists>c\<in>set (kafkaConsumers exampleBootstrap). \<not> c \<noteq> 31
          \<and> fst (startOptionalComponents (\<lambda>c. c \<noteq> 31) exampleBootstrap) = Inl (VerificationPanic c)"
    by blast
  then have r3: "fst (startOptionalComponents (\<lambda>c. c \<noteq> 31) exampleBootstrap) = Inl (VerificationPanic 31)"
    by auto
  from cs r1 r2 r3 show ?thesis by blast
qed

section \<open>Shutdown order\<close>

lemma forEach_producers:
  "forEach (\<lambda>producerEntry.
       case snd producerEntry of Some p \<Rightarrow> [Producer_destroy p] | None \<Rightarrow> []) ps
   = map Producer_destroy (List.map_filter snd ps)"
  by (induction ps) (simp_all add: List.map_filter_simps split: option.splits)

lemma stopOptionalComponents_calls:
  "stopOptionalComponents b =
     (case embeddedHttpServer b of Some h \<Rightarrow> [EmbeddedHttpServer_destroy h] | None \<Rightarrow> [])
     @ map Consumer_stop (kafkaConsumers b)
     @ map Consumer_destroy (kafkaConsumers b)
     @ map (\<lambda>e. ScheduledTaskQueue_destroy (snd e)) (scheduledTaskQueueMap b)
     @ map Producer_destroy (List.map_filter snd (kafkaProducers b))
     @ (case databaseManager b of Some d \<Rightarrow> [DatabaseManager_destroy d] | None \<Rightarrow> [])"
  by (simp add: stopOptionalComponents_def forEach_single forEach_producers)

lemma stopRocksDb_calls:
  "rocksDb b = Some db \<Longrightarrow>
   stopRocksDb b =
     (Inr (), map (\<lambda>e. DB_DestroyColumnFamilyHandle db (snd e)) (columnFamilyMap b) @ [DB_delete db])"
  by (simp add: stopRocksDb_def forEach_single)

lemma stopServer_fields:
  "rocksDb (snd (stopServer b)) = rocksDb b"
  "columnFamilyMap (snd (stopServer b)) = columnFamilyMap b"
  "databaseManager (snd (stopServer b)) = databaseManager b"
  "scheduledTaskQueueMap (snd (stopServer b)) = scheduledTaskQueueMap b"
  "kafkaConsumers (snd (stopServer b)) = kafkaConsumers b"
  "kafkaProducers (snd (stopServer b)) = kafkaProducers b"
  "embeddedHttpServer (snd (stopServer b)) = embeddedHttpServer b"
  by (simp_all add: stopServer_def split: option.splits)

lemma stopServer_calls:
  "fst (stopServer b) = (case server b of Some srv \<Rightarrow> [Server_stop srv, Server_join srv] | None \<Rightarrow> [])"
  by (simp add: stopServer_def split: option.splits)

lemma shutdown_unfold:
  "shutdown b =
     (fst (stopRocksDb (snd (stopServer b))),
      fst (stopServer b) @ stopOptionalComponents (snd (stopServer b))
        @ snd (stopRocksDb (snd (stopServer b))),
      snd (stopServer b))"
  by (simp add: shutdown_def split: prod.splits)

lemma stopOptionalComponents_after_stopServer:
  "stopOptionalComponents (snd (stopServer b)) = stopOptionalComponents b"
  by (simp add: stopOptionalComponents_def stopServer_fields)

lemma stopRocksDb_after_stopServer:
  "stopRocksDb (snd (stopServer b)) = stopRocksDb b"
  by (simp add: stopRocksDb_def stopServer_fields split: option.splits)

text \<open>
  C3: when the engine has been opened, the calls of the shutdown sequence are, in this order:
  the stop and join of the server, the destroy of the embedded HTTP server, \<open>stop\<close> on every
  consumer, \<open>destroy\<close> on every consumer, \<open>destroy\<close> on every task queue, \<open>destroy\<close> on
  every producer of the producer map (a null entry is skipped), the destroy of the database
  manager, the destroy of every column family handle, and the delete of the database. An
  optional component that is absent contributes no call.
\<close>

theorem shutdown_order:
  "rocksDb b = Some db \<Longrightarrow>
   shutdown b =
     (Inr (),
      (case server b of Some srv \<Rightarrow> [Server_stop srv, Server_join srv] | None \<Rightarrow> [])
      @ (case embeddedHttpServer b of Some h \<Rightarrow> [EmbeddedHttpServer_destroy h] | None \<Rightarrow> [])
      @ map Consumer_stop (kafkaConsumers b)
      @ map Consumer_destroy (kafkaConsumers b)
      @ map (\<lambda>e. ScheduledTaskQueue_destroy (snd e)) (scheduledTaskQueueMap b)
      @ map Producer_destroy (List.map_filter snd (kafkaProducers b))
      @ (case databaseManager b of Some d \<Rightarrow> [DatabaseManager_destroy d] | None \<Rightarrow> [])
      @ map (\<lambda>e. DB_DestroyColumnFamilyHandle db (snd e)) (columnFamilyMap b)
      @ [DB_delete db],
      snd (stopServer b))"
  by (simp add: shutdown_unfold stopOptionalComponents_after_stopServer
      stopRocksDb_after_stopServer stopServer_calls stopOptionalComponents_calls stopRocksDb_calls
      stopServer_fields)

theorem shutdown_order_witness:
  "rocksDb exampleBootstrap = Some 1
   \<and> shutdown exampleBootstrap =
      (Inr (),
       [Server_stop 4, Server_join 4, EmbeddedHttpServer_destroy 3,
        Consumer_stop 30, Consumer_stop 31, Consumer_destroy 30, Consumer_destroy 31,
        ScheduledTaskQueue_destroy 20, Producer_destroy 40, DatabaseManager_destroy 2,
        DB_DestroyColumnFamilyHandle 1 (Some 10), DB_DestroyColumnFamilyHandle 1 (Some 11),
        DB_delete 1],
       exampleBootstrap\<lparr>server := None\<rparr>)"
proof -
  have db: "rocksDb exampleBootstrap = Some 1" by (simp add: exampleBootstrap_def)
  have st: "snd (stopServer exampleBootstrap) = exampleBootstrap\<lparr>server := None\<rparr>"
    by (simp add: stopServer_def exampleBootstrap_def)
  from shutdown_order [OF db] st db show ?thesis
    by (simp add: exampleBootstrap_def)
qed

text \<open>
  C8: when the engine has been opened, \<open>stopRocksDb\<close> destroys every column family handle of
  the map and then deletes the database; its calls are the last calls of the shutdown
  sequence, and before them every consumer has been stopped and destroyed, every task queue
  and every producer has been destroyed, and no call has been made on the engine.
\<close>

theorem stopRocksDb_last:
  "rocksDb b = Some db \<Longrightarrow>
   stopRocksDb b =
     (Inr (), map (\<lambda>e. DB_DestroyColumnFamilyHandle db (snd e)) (columnFamilyMap b) @ [DB_delete db])
   \<and> (\<exists>pre. fst (snd (shutdown b)) = pre @ snd (stopRocksDb b)
        \<and> (\<forall>c\<in>set (kafkaConsumers b). Consumer_stop c \<in> set pre \<and> Consumer_destroy c \<in> set pre)
        \<and> (\<forall>e\<in>set (scheduledTaskQueueMap b). ScheduledTaskQueue_destroy (snd e) \<in> set pre)
        \<and> (\<forall>name p. (name, Some p) \<in> set (kafkaProducers b) \<longrightarrow> Producer_destroy p \<in> set pre)
        \<and> (\<forall>x\<in>set pre. \<not> is_engine_call x))"
proof
  assume db: "rocksDb b = Some db"
  then show "stopRocksDb b =
     (Inr (), map (\<lambda>e. DB_DestroyColumnFamilyHandle db (snd e)) (columnFamilyMap b) @ [DB_delete db])"
    by (rule stopRocksDb_calls)
  let ?pre = "fst (stopServer b) @ stopOptionalComponents b"
  have cut: "fst (snd (shutdown b)) = ?pre @ snd (stopRocksDb b)"
    by (simp add: shutdown_unfold stopOptionalComponents_after_stopServer
        stopRocksDb_after_stopServer)
  have cons: "\<forall>c\<in>set (kafkaConsumers b). Consumer_stop c \<in> set ?pre \<and> Consumer_destroy c \<in> set ?pre"
    by (simp add: stopOptionalComponents_calls)
  have tqs: "\<forall>e\<in>set (scheduledTaskQueueMap b). ScheduledTaskQueue_destroy (snd e) \<in> set ?pre"
    by (simp add: stopOptionalComponents_calls)
  have prods: "\<forall>name p. (name, Some p) \<in> set (kafkaProducers b) \<longrightarrow> Producer_destroy p \<in> set ?pre"
    by (force simp: stopOptionalComponents_calls List.map_filter_def)
  have none: "\<forall>x\<in>set ?pre. \<not> is_engine_call x"
    by (auto simp: stopOptionalComponents_calls stopServer_calls is_engine_call_def
        split: option.splits)
  from cut cons tqs prods none
  show "\<exists>pre. fst (snd (shutdown b)) = pre @ snd (stopRocksDb b)
        \<and> (\<forall>c\<in>set (kafkaConsumers b). Consumer_stop c \<in> set pre \<and> Consumer_destroy c \<in> set pre)
        \<and> (\<forall>e\<in>set (scheduledTaskQueueMap b). ScheduledTaskQueue_destroy (snd e) \<in> set pre)
        \<and> (\<forall>name p. (name, Some p) \<in> set (kafkaProducers b) \<longrightarrow> Producer_destroy p \<in> set pre)
        \<and> (\<forall>x\<in>set pre. \<not> is_engine_call x)"
    by blast
qed

theorem stopRocksDb_last_witness:
  "rocksDb exampleBootstrap = Some 1
   \<and> stopRocksDb exampleBootstrap =
       (Inr (), [DB_DestroyColumnFamilyHandle 1 (Some 10), DB_DestroyColumnFamilyHandle 1 (Some 11),
                 DB_delete 1])"
proof -
  have db: "rocksDb exampleBootstrap = Some 1" by (simp add: exampleBootstrap_def)
  from stopRocksDb_last [OF db] db show ?thesis
    by (simp add: exampleBootstrap_def)
qed

section \<open>The handler builder\<close>

lemma newHandler_singleton:
  "singletonHandler bd \<Longrightarrow> handler bd = Some h \<Longrightarrow>
   newHandler bd = Inr (Some h, [RedisHandler_connectionOpened h], bd)"
  by (simp add: newHandler_def)

lemma newHandler_times_singleton:
  "singletonHandler bd \<Longrightarrow> handler bd = Some h \<Longrightarrow>
   newHandler_times n bd =
     Inr (replicate n (Some h), replicate n (RedisHandler_connectionOpened h), bd)"
  by (induction n) (simp_all add: newHandler_singleton)

lemma DefaultRedisHandlerBuilder_singleton:
  assumes "DefaultRedisHandlerBuilder factory True = Inr bd"
  shows "\<exists>h. factory 0 = Some h \<and> bd = \<lparr>redisHandlerFactory = factory, singletonHandler = True,
                handler = Some h, invocations = 1\<rparr>"
  using assms
  by (auto simp: DefaultRedisHandlerBuilder_def invokeFactory_def Let_def split: if_splits)

text \<open>
  C9: a builder constructed with the singleton strategy has invoked the factory exactly once,
  in its constructor, and holds that handler; any number of \<open>newHandler\<close> calls return that
  same handler each time and leave the builder, and so the count of factory invocations,
  unchanged.
\<close>

theorem singleton_handler_built_once:
  "DefaultRedisHandlerBuilder factory True = Inr bd \<Longrightarrow>
   \<exists>h. factory 0 = Some h \<and> handler bd = Some h \<and> invocations bd = 1
      \<and> (\<forall>n. newHandler_times n bd =
             Inr (replicate n (Some h), replicate n (RedisHandler_connectionOpened h), bd))"
proof -
  assume a: "DefaultRedisHandlerBuilder factory True = Inr bd"
  from DefaultRedisHandlerBuilder_singleton [OF a] obtain h
    where h: "factory 0 = Some h"
      and bd: "bd = \<lparr>redisHandlerFactory = factory, singletonHandler = True,
                handler = Some h, invocations = 1\<rparr>"
    by blast
  from bd have s: "singletonHandler bd" and hd: "handler bd = Some h" and i: "invocations bd = 1"
    by simp_all
  from h hd i newHandler_times_singleton [OF s hd] show ?thesis by blast
qed

theorem singleton_handler_built_once_witness:
  "DefaultRedisHandlerBuilder (\<lambda>k. Some (100 + k)) True =
     Inr \<lparr>redisHandlerFactory = (\<lambda>k. Some (100 + k)), singletonHandler = True,
          handler = Some 100, invocations = 1\<rparr>
   \<and> newHandler_times (Suc (Suc 0))
        \<lparr>redisHandlerFactory = (\<lambda>k. Some (100 + k)), singletonHandler = True,
         handler = Some 100, invocations = 1\<rparr> =
      Inr ([Some 100, Some 100],
           [RedisHandler_connectionOpened 100, RedisHandler_connectionOpened 100],
           \<lparr>redisHandlerFactory = (\<lambda>k. Some (100 + k)), singletonHandler = True,
            handler = Some 100, invocations = 1\<rparr>)"
proof -
  let ?bd = "\<lparr>redisHandlerFactory = (\<lambda>k. Some (100 + k)), singletonHandler = True,
          handler = Some 100, invocations = 1\<rparr>"
  have c: "DefaultRedisHandlerBuilder (\<lambda>k. Some (100 + k)) True = Inr ?bd"
    by (simp add: DefaultRedisHandlerBuilder_def invokeFactory_def)
  from singleton_handler_built_once [OF c]
  have "newHandler_times (Suc (Suc 0)) ?bd =
      Inr (replicate (Suc (Suc 0)) (Some 100),
           replicate (Suc (Suc 0)) (RedisHandler_connectionOpened 100), ?bd)"
    by auto
  with c show ?thesis by simp
qed

text \<open>
  C1: with the per-connection strategy the constructor leaves \<open>handler_\<close> null, and
  \<open>newHandler\<close> sends \<open>connectionOpened\<close> through \<open>handler_\<close>, not through the handler it
  has just obtained from the factory: the call dereferences a null pointer and the new
  handler is never notified.
\<close>

theorem newHandler_per_connection_null_dereference:
  "DefaultRedisHandlerBuilder (\<lambda>k. Some (100 + k)) False =
     Inr \<lparr>redisHandlerFactory = (\<lambda>k. Some (100 + k)), singletonHandler = False,
          handler = None, invocations = 0\<rparr>
   \<and> newHandler \<lparr>redisHandlerFactory = (\<lambda>k. Some (100 + k)), singletonHandler = False,
          handler = None, invocations = 0\<rparr> = Inl NullDereference"
  by (simp add: DefaultRedisHandlerBuilder_def newHandler_def invokeFactory_def)

section \<open>The migration gate\<close>

text \<open>
  C4: the gate permits the one-off flags exactly when the persisted timestamp is below the
  target and the distance between now and the target is at most 30 minutes (1,800,000 ms).
  Once the target itself is persisted the gate denies; more than 30 minutes past the target
  it denies whatever is persisted.
\<close>

theorem canApplyOneOffFlags_gate:
  "(canApplyOneOffFlags P N T \<longleftrightarrow> P < T \<and> \<bar>N - T\<bar> \<le> 1800000)
   \<and> \<not> canApplyOneOffFlags T N T
   \<and> (1800000 < N - T \<longrightarrow> \<not> canApplyOneOffFlags P N T)"
  by (auto simp: canApplyOneOffFlags_def kMaxVersionTimestampAgeMs_def)

theorem canApplyOneOffFlags_gate_witness:
  "canApplyOneOffFlags 1000 (2000 + 10 * 60 * 1000) 2000
   \<and> (1800000::int) < (2000 + 40 * 60 * 1000) - 2000
   \<and> \<not> canApplyOneOffFlags 1000 (2000 + 40 * 60 * 1000) 2000
   \<and> \<not> canApplyOneOffFlags 1000 (1000 + 60 * 1000) 1000"
proof -
  have far: "(1800000::int) < (2000 + 40 * 60 * 1000) - 2000" by simp
  from canApplyOneOffFlags_gate [of 1000 "2000 + 10 * 60 * 1000" 2000]
  have r1: "canApplyOneOffFlags 1000 (2000 + 10 * 60 * 1000) 2000" by simp
  from canApplyOneOffFlags_gate [of 1000 "2000 + 40 * 60 * 1000" 2000] far
  have r2: "\<not> canApplyOneOffFlags 1000 (2000 + 40 * 60 * 1000) 2000" by blast
  from canApplyOneOffFlags_gate [of 1000 "1000 + 60 * 1000" 1000]
  have r3: "\<not> canApplyOneOffFlags 1000 (1000 + 60 * 1000) 1000" by blast
  from far r1 r2 r3 show ?thesis by blast
qed

section \<open>Column family names\<close>

lemma to_digits_unfold:
  "to_digits n = (if n < 10 then [digit_char n] else to_digits (n div 10) @ [digit_char (n mod 10)])"
  by (rule to_digits.simps)

lemma digits_distinct: "distinct ''0123456789''"
  by simp

lemma digit_char_inj: "a < 10 \<Longrightarrow> b < 10 \<Longrightarrow> digit_char a = digit_char b \<Longrightarrow> a = b"
  unfolding digit_char_def
  using digits_distinct nth_eq_iff_index_eq [of "''0123456789''" a b] by simp

lemma digit_char_not_dash: "a < 10 \<Longrightarrow> digit_char a \<noteq> CHR ''-''"
proof -
  assume "a < 10"
  then have "digit_char a \<in> set ''0123456789''"
    unfolding digit_char_def by (intro nth_mem) simp
  then show ?thesis by auto
qed

lemma to_digits_nonempty: "to_digits n \<noteq> []"
  by (subst to_digits_unfold) simp

lemma to_digits_no_dash: "CHR ''-'' \<notin> set (to_digits n)"
proof (induction n rule: to_digits.induct)
  case (1 n)
  show ?case
  proof (cases "n < 10")
    case True
    then show ?thesis using digit_char_not_dash [of n]
      by (subst to_digits_unfold) auto
  next
    case False
    have "n mod 10 < 10" by simp
    from digit_char_not_dash [OF this] "1.IH" [OF False] False show ?thesis
      by (subst to_digits_unfold) auto
  qed
qed

lemma to_digits_inj: "to_digits n = to_digits m \<Longrightarrow> n = m"
proof (induction n arbitrary: m rule: to_digits.induct)
  case (1 n)
  show ?case
  proof (cases "n < 10")
    case n: True
    show ?thesis
    proof (cases "m < 10")
      case True
      from "1.prems" n True have "digit_char n = digit_char m"
        by (simp add: to_digits_unfold [of n] to_digits_unfold [of m])
      with n True show ?thesis by (rule digit_char_inj)
    next
      case False
      from "1.prems" n False have "[digit_char n] = to_digits (m div 10) @ [digit_char (m mod 10)]"
        by (simp add: to_digits_unfold [of n] to_digits_unfold [of m])
      then have "to_digits (m div 10) = []" by simp
      with to_digits_nonempty show ?thesis by blast
    qed
  next
    case n: False
    show ?thesis
    proof (cases "m < 10")
      case True
      from "1.prems" n True have "to_digits (n div 10) @ [digit_char (n mod 10)] = [digit_char m]"
        by (simp add: to_digits_unfold [of n] to_digits_unfold [of m])
      then have "to_digits (n div 10) = []" by simp
      with to_digits_nonempty show ?thesis by blast
    next
      case False
      from "1.prems" n False
      have "to_digits (n div 10) @ [digit_char (n mod 10)]
            = to_digits (m div 10) @ [digit_char (m mod 10)]"
        by (simp add: to_digits_unfold [of n] to_digits_unfold [of m])
      then have hi: "to_digits (n div 10) = to_digits (m div 10)"
        and lo: "digit_char (n mod 10) = digit_char (m mod 10)"
        by simp_all
      from "1.IH" [OF n hi] have d: "n div 10 = m div 10" .
      have "n mod 10 = m mod 10" using lo by (intro digit_char_inj) simp_all
      with d show ?thesis by (metis div_mult_mod_eq)
    qed
  qed
qed

lemma format_int_inj: "format_int i = format_int j \<Longrightarrow> i = j"
proof -
  assume e: "format_int i = format_int j"
  consider "i < 0" "j < 0" | "i < 0" "\<not> j < 0" | "\<not> i < 0" "j < 0" | "\<not> i < 0" "\<not> j < 0"
    by blast
  then show ?thesis
  proof cases
    case 1
    with e have "to_digits (nat (- i)) = to_digits (nat (- j))" by (simp add: format_int_def)
    then have "nat (- i) = nat (- j)" by (rule to_digits_inj)
    with 1 show ?thesis by simp
  next
    case 2
    with e have "CHR ''-'' # to_digits (nat (- i)) = to_digits (nat j)" by (simp add: format_int_def)
    then have "CHR ''-'' \<in> set (to_digits (nat j))" by (metis list.set_intros(1))
    with to_digits_no_dash show ?thesis by blast
  next
    case 3
    with e have "to_digits (nat i) = CHR ''-'' # to_digits (nat (- j))" by (simp add: format_int_def)
    then have "CHR ''-'' \<in> set (to_digits (nat i))" by simp
    with to_digits_no_dash show ?thesis by blast
  next
    case 4
    with e have "to_digits (nat i) = to_digits (nat j)" by (simp add: format_int_def)
    then have "nat i = nat j" by (rule to_digits_inj)
    with 4 show ?thesis by simp
  qed
qed

lemma getColumnFamilyNameInGroup_inj:
  "getColumnFamilyNameInGroup g i = getColumnFamilyNameInGroup g j \<Longrightarrow> i = j"
  by (simp add: getColumnFamilyNameInGroup_def format_int_inj)

lemma fold_collect: "fold (\<lambda>i names. names @ [f i]) xs acc = acc @ map f xs"
  by (induction xs arbitrary: acc) simp_all

lemma columnFamilyNamesInGroup_map:
  "columnFamilyNamesInGroup g cfg =
     map (\<lambda>i. getColumnFamilyNameInGroup g (int i)) [0 ..< nat (localVirtualShardCount cfg)]"
  by (simp add: columnFamilyNamesInGroup_def processRocksDbColumnFamilyGroup_def fold_collect)

lemma columnFamilyNamesInGroup_alpha:
  "columnFamilyNamesInGroup ''alpha''
     \<lparr>startShardIndex = 0, localVirtualShardCount = 3, shardIndexIncrement = 2\<rparr>
   = [''alpha-0'', ''alpha-1'', ''alpha-2'']"
  by code_simp

text \<open>
  C5: resolving a group of \<open>localVirtualShardCount = n\<close> gives exactly \<open>n\<close> column family
  names, all distinct; the name at position \<open>i\<close> is \<open>getColumnFamilyNameInGroup\<close> of the
  group name and \<open>i\<close>, which is injective in the index, so a name depends on the group
  name and the index alone. The group \<open>alpha\<close> with start 0, count 3 and increment 2
  resolves to \<open>alpha-0\<close>, \<open>alpha-1\<close>, \<open>alpha-2\<close>.
\<close>

theorem columnFamilyNamesInGroup_distinct:
  "0 \<le> localVirtualShardCount cfg \<Longrightarrow>
   int (length (columnFamilyNamesInGroup g cfg)) = localVirtualShardCount cfg
   \<and> distinct (columnFamilyNamesInGroup g cfg)
   \<and> (\<forall>i < length (columnFamilyNamesInGroup g cfg).
         columnFamilyNamesInGroup g cfg ! i = getColumnFamilyNameInGroup g (int i))
   \<and> (\<forall>i j. getColumnFamilyNameInGroup g i = getColumnFamilyNameInGroup g j \<longrightarrow> i = j)
   \<and> columnFamilyNamesInGroup ''alpha''
        \<lparr>startShardIndex = 0, localVirtualShardCount = 3, shardIndexIncrement = 2\<rparr>
      = [''alpha-0'', ''alpha-1'', ''alpha-2'']"
proof (intro conjI allI impI)
  assume "0 \<le> localVirtualShardCount cfg"
  then show "int (length (columnFamilyNamesInGroup g cfg)) = localVirtualShardCount cfg"
    by (simp add: columnFamilyNamesInGroup_map)
next
  have "inj_on (\<lambda>i. getColumnFamilyNameInGroup g (int i)) (set [0 ..< nat (localVirtualShardCount cfg)])"
    by (rule inj_onI) (auto dest: getColumnFamilyNameInGroup_inj)
  then show "distinct (columnFamilyNamesInGroup g cfg)"
    by (simp add: columnFamilyNamesInGroup_map distinct_map)
next
  fix i assume "i < length (columnFamilyNamesInGroup g cfg)"
  then show "columnFamilyNamesInGroup g cfg ! i = getColumnFamilyNameInGroup g (int i)"
    by (simp add: columnFamilyNamesInGroup_map)
next
  fix i j assume "getColumnFamilyNameInGroup g i = getColumnFamilyNameInGroup g j"
  then show "i = j" by (rule getColumnFamilyNameInGroup_inj)
next
  show "columnFamilyNamesInGroup ''alpha''
        \<lparr>startShardIndex = 0, localVirtualShardCount = 3, shardIndexIncrement = 2\<rparr>
      = [''alpha-0'', ''alpha-1'', ''alpha-2'']"
    by (rule columnFamilyNamesInGroup_alpha)
qed

theorem columnFamilyNamesInGroup_distinct_witness:
  "(0::int) \<le> localVirtualShardCount
       \<lparr>startShardIndex = 0, localVirtualShardCount = 3, shardIndexIncrement = 2\<rparr>
   \<and> length (columnFamilyNamesInGroup ''alpha''
        \<lparr>startShardIndex = 0, localVirtualShardCount = 3, shardIndexIncrement = 2\<rparr>) = 3
   \<and> columnFamilyNamesInGroup ''alpha''
        \<lparr>startShardIndex = 0, localVirtualShardCount = 3, shardIndexIncrement = 2\<rparr>
      = [''alpha-0'', ''alpha-1'', ''alpha-2'']
   \<and> distinct (columnFamilyNamesInGroup ''alpha''
        \<lparr>startShardIndex = 0, localVirtualShardCount = 3, shardIndexIncrement = 2\<rparr>)"
proof -
  let ?cfg = "\<lparr>startShardIndex = 0, localVirtualShardCount = 3, shardIndexIncrement = 2\<rparr>"
  have n: "(0::int) \<le> localVirtualShardCount ?cfg" by simp
  note resolved = columnFamilyNamesInGroup_distinct [OF n, of "''alpha''"]
  from resolved have len: "length (columnFamilyNamesInGroup ''alpha'' ?cfg) = 3" by simp
  from resolved have names:
    "columnFamilyNamesInGroup ''alpha'' ?cfg = [''alpha-0'', ''alpha-1'', ''alpha-2'']"
    by blast
  from resolved have "distinct (columnFamilyNamesInGroup ''alpha'' ?cfg)" by blast
  with n len names show ?thesis by blast
qed

end
